theory Spec2Isabelle
  imports Main "HOL-Library.Word" "HOL-Library.List_Lexorder" "HOL-Library.AList"
    "HOL-Library.Monad_Syntax"
begin

unbundle bit_operations_syntax

section \<open>JavaScript values used by QRIS.js\<close>

text \<open>
  A JavaScript string is a sequence of UTF-16 code units; \<open>length\<close>, \<open>slice\<close>,
  \<open>indexOf\<close> and \<open>charCodeAt\<close> all count and read code units. ASCII literals of
  the source are written \<open>lit ''6304''\<close>.
\<close>

type_synonym jstring = "16 word list"

definition lit :: "string \<Rightarrow> jstring" where
  "lit s = map of_char s"

text \<open>
  \<open>String.prototype.slice(start, end)\<close>: a negative index counts from the end, both
  indices are clamped to the string, and an empty string results when the end is not
  after the start.
\<close>

definition slice :: "jstring \<Rightarrow> int \<Rightarrow> int \<Rightarrow> jstring" where
  "slice s start end =
     (let len = int (length s);
          from = (if start < 0 then max (len + start) 0 else min start len);
          to = (if end < 0 then max (len + end) 0 else min end len)
      in take (nat (max (to - from) 0)) (drop (nat from) s))"

text \<open>\<open>String.prototype.padStart(n, c)\<close> with a one-character filler.\<close>

definition padStart :: "nat \<Rightarrow> 16 word \<Rightarrow> jstring \<Rightarrow> jstring" where
  "padStart n c s = replicate (n - length s) c @ s"

text \<open>
  \<open>Number.prototype.toString(radix)\<close> on a non-negative integer: the digits
  \<open>0-9a-z\<close>, most significant first, no leading zero.
\<close>

definition digit_char :: "nat \<Rightarrow> 16 word" where
  "digit_char d = (if d < 10 then of_nat (48 + d) else of_nat (87 + d))"

function toString_radix :: "nat \<Rightarrow> nat \<Rightarrow> jstring" where
  "toString_radix r n =
     (if r < 2 \<or> n < r then [digit_char n]
      else toString_radix r (n div r) @ [digit_char (n mod r)])"
  by pat_completeness auto
termination
  by (relation "measure snd") auto

declare toString_radix.simps [simp del]

text \<open>
  \<open>String.prototype.toUpperCase\<close> on the ASCII letters. Its only argument in the
  source is the output of \<open>toString(16)\<close>, whose characters are \<open>0-9\<close> and \<open>a-f\<close>.
\<close>

definition toUpperCase :: "jstring \<Rightarrow> jstring" where
  "toUpperCase s = map (\<lambda>c. if 97 \<le> c \<and> c \<le> 122 then c - 32 else c) s"

section \<open>generateTag\<close>

definition generateTag :: "jstring \<Rightarrow> jstring \<Rightarrow> jstring" where
  "generateTag ident val =
     (let len = padStart 2 (of_char CHR ''0'') (toString_radix 10 (length val))
      in ident @ len @ val)"

section \<open>calculateCRC16\<close>

text \<open>
  The bitwise operators of JavaScript work on 32-bit integers. \<open>crc\<close> starts at
  \<open>0xFFFF\<close>, \<open>charCodeAt(i) << 8\<close> is below \<open>2 ^ 24\<close> and every later value is below
  \<open>2 ^ 25\<close>, so the register is a \<open>32 word\<close> whose unsigned value is the number the
  source holds.
\<close>

definition crc_round :: "32 word \<Rightarrow> 32 word" where
  "crc_round crc =
     (let crc = (if crc AND 0x8000 \<noteq> 0 then push_bit 1 crc XOR 0x1021 else push_bit 1 crc)
      in crc AND 0xFFFF)"

definition crc_char :: "32 word \<Rightarrow> 16 word \<Rightarrow> 32 word" where
  "crc_char crc c = (crc_round ^^ 8) (crc XOR push_bit 8 (ucast c))"

definition calculateCRC16 :: "jstring \<Rightarrow> jstring" where
  "calculateCRC16 data =
     (let crc = foldl crc_char 0xFFFF data
      in padStart 4 (of_char CHR ''0'') (toUpperCase (toString_radix 16 (unat crc))))"


section \<open>Objects\<close>

text \<open>
  The objects built by the source map property names to strings or to objects. An object
  is the list of its properties in creation order: assigning to an existing name
  replaces the value in place, a new name is added at the end (\<open>AList.update\<close>), and
  \<open>delete\<close> removes the property (\<open>AList.delete\<close>).
\<close>

datatype jsval = JStr jstring | JObj "(jstring \<times> jsval) list"

type_synonym jsobj = "(jstring \<times> jsval) list"

text \<open>
  \<open>Object.keys\<close> and \<open>Object.entries\<close> list the array indices first, in ascending
  numeric order, then the other names in creation order. An array index is the
  canonical decimal numeral of an integer below \<open>2 ^ 32 - 1\<close>.
\<close>

definition isDigit :: "16 word \<Rightarrow> bool" where
  "isDigit c \<longleftrightarrow> 48 \<le> c \<and> c \<le> 57"

definition decimal_value :: "jstring \<Rightarrow> nat" where
  "decimal_value z = foldl (\<lambda>a c. 10 * a + (unat c - 48)) 0 z"

definition isArrayIndex :: "jstring \<Rightarrow> bool" where
  "isArrayIndex k \<longleftrightarrow>
     k \<noteq> [] \<and> list_all isDigit k \<and> (length k = 1 \<or> hd k \<noteq> 48) \<and>
     decimal_value k < 4294967295"

definition Object_entries :: "jsobj \<Rightarrow> (jstring \<times> jsval) list" where
  "Object_entries obj =
     sort_key (\<lambda>p. decimal_value (fst p)) (filter (\<lambda>p. isArrayIndex (fst p)) obj) @
     filter (\<lambda>p. \<not> isArrayIndex (fst p)) obj"

definition Object_keys :: "jsobj \<Rightarrow> jstring list" where
  "Object_keys obj = map fst (Object_entries obj)"

section \<open>parseTLV\<close>

text \<open>
  \<open>parseInt(s, 10)\<close>: leading white space is skipped, one sign is accepted, then the
  longest run of decimal digits is read and whatever follows is ignored; without a
  digit the result is \<open>NaN\<close>, here \<open>None\<close>. The source passes a slice of at most two
  code units, so the value is an integer that a JavaScript number holds exactly.
\<close>

definition isWhiteSpace :: "16 word \<Rightarrow> bool" where
  "isWhiteSpace c \<longleftrightarrow>
     c \<in> {0x09, 0x0A, 0x0B, 0x0C, 0x0D, 0x20, 0xA0, 0x1680, 0x2028, 0x2029, 0x202F,
          0x205F, 0x3000, 0xFEFF} \<or> (0x2000 \<le> c \<and> c \<le> 0x200A)"

definition parseInt :: "jstring \<Rightarrow> int option" where
  "parseInt s =
     (let s1 = dropWhile isWhiteSpace s;
          sign = (if s1 \<noteq> [] \<and> hd s1 = of_char CHR ''-'' then - 1 else 1);
          s2 = (if s1 \<noteq> [] \<and> (hd s1 = of_char CHR ''+'' \<or> hd s1 = of_char CHR ''-'')
                then tl s1 else s1);
          z = takeWhile isDigit s2
      in if z = [] then None else Some (sign * int (decimal_value z)))"

text \<open>
  The \<open>while\<close> loop of \<open>parseTLV\<close>, with the scan position \<open>i\<close> and the object built
  so far as its state. \<open>None\<close> is a run that never returns. The source computes
  \<open>value\<close> before the test that leaves the loop; on that path it is not used.
\<close>

partial_function (option) parseTLV_loop ::
  "jstring \<Rightarrow> jstring list \<Rightarrow> int \<Rightarrow> jsobj \<Rightarrow> jsobj option" where
  "parseTLV_loop data recurseTags i result =
     (if i + 4 \<le> int (length data) then
        (case parseInt (slice data (i + 2) (i + 4)) of
           None \<Rightarrow> Some result
         | Some len \<Rightarrow>
             if i + 4 + len > int (length data) then Some result
             else if slice data i (i + 2) \<in> set recurseTags then
               do {
                 sub \<leftarrow> parseTLV_loop (slice data (i + 4) (i + 4 + len)) recurseTags 0 [];
                 parseTLV_loop data recurseTags (i + 4 + len)
                   (AList.update (slice data i (i + 2)) (JObj sub) result)
               }
             else
               parseTLV_loop data recurseTags (i + 4 + len)
                 (AList.update (slice data i (i + 2))
                    (JStr (slice data (i + 4) (i + 4 + len))) result))
      else Some result)"

declare parseTLV_loop.simps [code]

definition parseTLV :: "jstring \<Rightarrow> jstring list \<Rightarrow> jsobj option" where
  "parseTLV data recurseTags = parseTLV_loop data recurseTags 0 []"

section \<open>generate\<close>

text \<open>\<open>indexOf\<close> is the least position at which the pattern starts, or \<open>-1\<close>.\<close>

fun indexOf_from :: "jstring \<Rightarrow> jstring \<Rightarrow> int \<Rightarrow> int" where
  "indexOf_from pat [] k = (if pat = [] then k else - 1)"
| "indexOf_from pat (c # s) k =
     (if take (length pat) (c # s) = pat then k else indexOf_from pat s (k + 1))"

definition indexOf :: "jstring \<Rightarrow> jstring \<Rightarrow> int" where
  "indexOf s pat = indexOf_from pat s 0"

definition includes_str :: "jstring \<Rightarrow> jstring \<Rightarrow> bool" where
  "includes_str s pat \<longleftrightarrow> indexOf s pat \<noteq> - 1"


text \<open>
  The closure \<open>rebuild\<close>: the names of the object are sorted (the default order of
  \<open>sort\<close> compares strings code unit by code unit), each property becomes a tag whose
  value is the string itself or the rebuilt nested object, and the tags are joined.
  The names come from the object, so the lookup always finds a property.
\<close>

function rebuild :: "jsobj \<Rightarrow> jstring" where
  "rebuild obj =
     concat (map (\<lambda>ident.
        case map_of obj ident of
          Some (JObj val) \<Rightarrow> generateTag ident (rebuild val)
        | Some (JStr val) \<Rightarrow> generateTag ident val
        | None \<Rightarrow> [])
      (sort (Object_keys obj)))"
  by pat_completeness auto
termination
proof (relation "measure (size_list (size_prod (\<lambda>_. 0) size))", goal_cases)
  case 1
  show ?case by simp
next
  case (2 obj ident x2 val)
  from 2 have "(ident, JObj val) \<in> set obj"
    by (auto dest: map_of_SomeD)
  then have "size_prod (\<lambda>_. 0) size (ident, JObj val) \<le> size_list (size_prod (\<lambda>_. 0) size) obj"
    by (rule size_list_estimation') simp
  then show ?case
    by simp
qed

declare rebuild.simps [simp del]

text \<open>
  \<open>throw new Error(message)\<close> is the result \<open>Inl (Error message)\<close>. The second
  argument of the model is the string \<open>Number(dataAmount).toFixed(2)\<close>, which the
  source computes from \<open>dataAmount\<close> without reading anything else; an empty
  \<open>dataInvoice\<close> or \<open>dataDescription\<close> is the omitted (or falsy) argument.
\<close>

datatype error = Error jstring

definition generate ::
  "jstring \<Rightarrow> jstring \<Rightarrow> jstring \<Rightarrow> jstring \<Rightarrow> (error + jstring) option" where
  "generate dataQris amountFixed dataInvoice dataDescription =
     (if \<not> includes_str dataQris (lit ''6304'') then
        Some (Inl (Error (lit ''Invalid QRIS base: CRC tag '' @ [0x22] @ lit ''6304'' @ [0x22]
                           @ lit '' not found'')))
      else do {
        let baseQR = slice dataQris 0 (indexOf dataQris (lit ''6304''));
        tlv \<leftarrow> parseTLV baseQR [];
        let tlv = AList.update (lit ''54'') (JStr amountFixed) tlv;
        let tlv =
          (if dataInvoice \<noteq> [] \<or> dataDescription \<noteq> [] then
             let addData = [];
                 addData = (if dataInvoice \<noteq> []
                            then AList.update (lit ''01'') (JStr dataInvoice) addData
                            else addData);
                 addData = (if dataDescription \<noteq> []
                            then AList.update (lit ''07'') (JStr dataDescription) addData
                            else addData)
             in AList.update (lit ''62'') (JObj addData) tlv
           else tlv);
        let qrWithoutCRC = rebuild tlv @ lit ''6304'';
        let crc = calculateCRC16 qrWithoutCRC;
        Some (Inr (qrWithoutCRC @ crc))
      })"

text \<open>
  \<open>Number(n).toFixed(2)\<close> for a non-negative integer \<open>n\<close> below \<open>2 ^ 53\<close>: its decimal
  numeral followed by \<open>.00\<close>.
\<close>

definition toFixed2 :: "nat \<Rightarrow> jstring" where
  "toFixed2 n = toString_radix 10 n @ lit ''.00''"

section \<open>validate\<close>

definition validate :: "jstring \<Rightarrow> bool" where
  "validate qrString =
     (let index = indexOf qrString (lit ''6304'') in
      if index = - 1 \<or> int (length qrString) < index + 8 then False
      else
        let withoutCRC = slice qrString 0 (index + 4);
            expectedCRC = slice qrString (index + 4) (index + 8);
            calculatedCRC = calculateCRC16 withoutCRC
        in expectedCRC = calculatedCRC)"

section \<open>extract\<close>

text \<open>The method \<open>extract\<close> is \<open>extract_qris\<close> here.\<close>

definition tagMap :: "(jstring \<times> jstring) list" where
  "tagMap = [
     (lit ''00'', lit ''Payload Format Indicator''),
     (lit ''01'', lit ''Point of Initiation Method''),
     (lit ''26'', lit ''Merchant Account Info (26)''),
     (lit ''27'', lit ''Merchant Account Info (27)''),
     (lit ''28'', lit ''Merchant Account Info (28)''),
     (lit ''29'', lit ''Merchant Account Info (29)''),
     (lit ''30'', lit ''Merchant Account Info (30)''),
     (lit ''31'', lit ''Merchant Account Info (31)''),
     (lit ''32'', lit ''Merchant Account Info (32)''),
     (lit ''33'', lit ''Merchant Account Info (33)''),
     (lit ''34'', lit ''Merchant Account Info (34)''),
     (lit ''35'', lit ''Merchant Account Info (35)''),
     (lit ''36'', lit ''Merchant Account Info (36)''),
     (lit ''37'', lit ''Merchant Account Info (37)''),
     (lit ''38'', lit ''Merchant Account Info (38)''),
     (lit ''39'', lit ''Merchant Account Info (39)''),
     (lit ''40'', lit ''Merchant Account Info (40)''),
     (lit ''41'', lit ''Merchant Account Info (41)''),
     (lit ''42'', lit ''Merchant Account Info (42)''),
     (lit ''43'', lit ''Merchant Account Info (43)''),
     (lit ''44'', lit ''Merchant Account Info (44)''),
     (lit ''45'', lit ''Merchant Account Info (45)''),
     (lit ''46'', lit ''Merchant Account Info (46)''),
     (lit ''47'', lit ''Merchant Account Info (47)''),
     (lit ''48'', lit ''Merchant Account Info (48)''),
     (lit ''49'', lit ''Merchant Account Info (49)''),
     (lit ''50'', lit ''Merchant Account Info (50)''),
     (lit ''51'', lit ''Merchant Account Info (51)''),
     (lit ''52'', lit ''Merchant Category Code''),
     (lit ''53'', lit ''Transaction Currency''),
     (lit ''54'', lit ''Transaction Amount''),
     (lit ''55'', lit ''Tip or Convenience Indicator''),
     (lit ''56'', lit ''Value of Convenience Fee Fixed''),
     (lit ''57'', lit ''Value of Convenience Fee Percentage''),
     (lit ''58'', lit ''Country Code''),
     (lit ''59'', lit ''Merchant Name''),
     (lit ''60'', lit ''Merchant City''),
     (lit ''61'', lit ''Postal Code''),
     (lit ''62'', lit ''Additional Data''),
     (lit ''63'', lit ''CRC'')]"

definition subTagMap :: "(jstring \<times> jstring) list" where
  "subTagMap = [
     (lit ''00'', lit ''Global Unique ID''),
     (lit ''01'', lit ''Invoice Number''),
     (lit ''07'', lit ''Description'')]"

text \<open>
  \<open>table[key] || `Tag ${key}`\<close>. The tables are object literals, whose own names are
  the ones listed; the names they inherit are all longer than the keys looked up here,
  which are slices of at most two code units. No label of the tables is empty.
\<close>

definition label_of :: "(jstring \<times> jstring) list \<Rightarrow> jstring \<Rightarrow> jstring" where
  "label_of table key =
     (case map_of table key of Some name \<Rightarrow> name | None \<Rightarrow> lit ''Tag '' @ key)"

definition extract_nested :: "jsobj \<Rightarrow> jsobj" where
  "extract_nested val =
     foldl (\<lambda>nested (subKey, subVal). AList.update (label_of subTagMap subKey) subVal nested)
       [] (Object_entries val)"

definition extract_qris :: "jstring \<Rightarrow> jsobj option" where
  "extract_qris qrString =
     do {
       raw \<leftarrow> parseTLV qrString [lit ''62''];
       let raw = AList.delete (lit ''63'') raw;
       Some (foldl (\<lambda>result (key, val).
               let label = label_of tagMap key in
               case val of
                 JObj obj \<Rightarrow> AList.update label (JObj (extract_nested obj)) result
               | JStr _ \<Rightarrow> AList.update label val result)
             [] (Object_entries raw))
     }"


text \<open>What \<open>extract\<close> stores under the label of a top-level entry.\<close>

fun relabel :: "jsval \<Rightarrow> jsval" where
  "relabel (JObj obj) = JObj (extract_nested obj)"
| "relabel (JStr val) = JStr val"

section \<open>Serialised entries\<close>

text \<open>The value that \<open>rebuild\<close> passes to \<open>generateTag\<close> for a name of the object.\<close>

definition tag_value :: "jsobj \<Rightarrow> jstring \<Rightarrow> jstring" where
  "tag_value obj ident =
     (case map_of obj ident of
        Some (JObj val) \<Rightarrow> rebuild val
      | Some (JStr val) \<Rightarrow> val
      | None \<Rightarrow> [])"

section \<open>Test vectors\<close>

text \<open>
  \<open>staticBase\<close> is the base payload of \<open>test/QRIS.test.js\<close> and \<open>example.js\<close>;
  \<open>generated6304\<close> is the payload generated from it for the amount 6304.
\<close>

definition staticBase :: jstring where
  "staticBase = lit ''00020101021126560012ID.GPNQR01189360091123456789020215ID20232541239390303UMI5204581253033605802ID5914RESTORASI MESJID6013JAKARTA SELATAN61051234563044E67''"

definition generated6304 :: jstring where
  "generated6304 = lit ''00020101021126560012ID.GPNQR01189360091123456789020215ID202325412393903054076304.0063045242''"

section \<open>Occurrences of a pattern\<close>

text \<open>
  The pattern \<open>pat\<close> occurs in \<open>s\<close> at position \<open>k\<close>; the first occurrence is the
  one with no occurrence before it.
\<close>

definition occurs_at :: "jstring \<Rightarrow> jstring \<Rightarrow> nat \<Rightarrow> bool" where
  "occurs_at s pat k \<longleftrightarrow> k + length pat \<le> length s \<and> take (length pat) (drop k s) = pat"

definition first_occurrence :: "jstring \<Rightarrow> jstring \<Rightarrow> nat \<Rightarrow> bool" where
  "first_occurrence s pat k \<longleftrightarrow> occurs_at s pat k \<and> (\<forall>j<k. \<not> occurs_at s pat j)"

section \<open>The checksum as the specification words it\<close>

text \<open>
  CRC-16/CCITT-FALSE as the specification describes it, on a 16-bit register and a
  sequence of bytes: the register starts at \<open>0xFFFF\<close>; each byte is combined into the
  high byte of the register with exclusive or; then eight times the register is shifted
  left by one bit, and the polynomial \<open>0x1021\<close> is combined in when the high bit was
  set. A \<open>16 word\<close> keeps 16 bits after every shift. The register is rendered as four
  upper-case hexadecimal digits.
\<close>

definition spec_crc_round :: "16 word \<Rightarrow> 16 word" where
  "spec_crc_round r = (if bit r 15 then push_bit 1 r XOR 0x1021 else push_bit 1 r)"

definition spec_crc_char :: "16 word \<Rightarrow> 8 word \<Rightarrow> 16 word" where
  "spec_crc_char r b = (spec_crc_round ^^ 8) (r XOR push_bit 8 (ucast b))"

definition hex_digit :: "nat \<Rightarrow> 16 word" where
  "hex_digit d = (lit ''0123456789ABCDEF'') ! d"

definition hex4 :: "nat \<Rightarrow> jstring" where
  "hex4 n = [hex_digit (n div 4096 mod 16), hex_digit (n div 256 mod 16),
             hex_digit (n div 16 mod 16), hex_digit (n mod 16)]"

definition spec_checksum :: "8 word list \<Rightarrow> jstring" where
  "spec_checksum bytes = hex4 (unat (foldl spec_crc_char 0xFFFF bytes))"

definition isUpperHex :: "16 word \<Rightarrow> bool" where
  "isUpperHex c \<longleftrightarrow> (48 \<le> c \<and> c \<le> 57) \<or> (65 \<le> c \<and> c \<le> 70)"

section \<open>Properties of calculateCRC16\<close>

lemma crc_round_le: "crc_round x \<le> 0xFFFF"
  unfolding crc_round_def Let_def by (rule word_and_le1)

lemma funpow_8: "(f ^^ 8) x = f (f (f (f (f (f (f (f x)))))))"
  by (simp add: eval_nat_numeral)

lemma crc_char_le: "crc_char x c \<le> 0xFFFF"
  unfolding crc_char_def funpow_8 by (rule crc_round_le)

lemma crc_foldl_le: "x \<le> 0xFFFF \<Longrightarrow> foldl crc_char x data \<le> 0xFFFF"
  by (induction data arbitrary: x) (simp_all add: crc_char_le)

lemma crc_register_bound: "unat (foldl crc_char 0xFFFF data) < 65536"
proof -
  have "foldl crc_char 0xFFFF data \<le> 0xFFFF"
    by (rule crc_foldl_le) simp
  then have "unat (foldl crc_char 0xFFFF data) \<le> unat (0xFFFF :: 32 word)"
    by (simp add: word_le_nat_alt)
  then show ?thesis by simp
qed

lemma digit_cases:
  assumes "d < (16 :: nat)"
  shows "d = 0 \<or> d = 1 \<or> d = 2 \<or> d = 3 \<or> d = 4 \<or> d = 5 \<or> d = 6 \<or> d = 7 \<or> d = 8 \<or>
    d = 9 \<or> d = 10 \<or> d = 11 \<or> d = 12 \<or> d = 13 \<or> d = 14 \<or> d = 15"
  using assms by arith

lemma toUpperCase_Nil: "toUpperCase [] = []"
  by (simp add: toUpperCase_def)

lemma toUpper_digit_char:
  assumes "d < 16"
  shows "toUpperCase (digit_char d # s) = hex_digit d # toUpperCase s"
  using digit_cases [OF assms]
  by (elim disjE) (simp_all add: toUpperCase_def digit_char_def hex_digit_def lit_def)

lemma isUpperHex_hex_digit:
  assumes "d < 16"
  shows "isUpperHex (hex_digit d)"
  using digit_cases [OF assms]
  by (elim disjE) (simp_all add: isUpperHex_def hex_digit_def lit_def)

lemma toString_16_digit: "n < 16 \<Longrightarrow> toString_radix 16 n = [digit_char n]"
  by (simp add: toString_radix.simps [of 16 n])

lemma toString_16_step:
  "16 \<le> n \<Longrightarrow> toString_radix 16 n = toString_radix 16 (n div 16) @ [digit_char (n mod 16)]"
  by (simp add: toString_radix.simps [of 16 n])

lemma render_hex4:
  assumes "n < 65536"
  shows "padStart 4 48 (toUpperCase (toString_radix 16 n)) = hex4 n"
proof -
  have z: "hex_digit 0 = 48" by (simp add: hex_digit_def lit_def)
  have r: "replicate 3 c = [c, c, c]" "replicate 2 c = [c, c]" for c :: "16 word"
    by (simp_all add: numeral_3_eq_3 numeral_2_eq_2)
  consider "n < 16" | "16 \<le> n" "n < 256" | "256 \<le> n" "n < 4096" | "4096 \<le> n"
    by linarith
  then show ?thesis
  proof cases
    case 1
    then show ?thesis
      by (simp add: toString_16_digit toUpperCase_Nil toUpper_digit_char padStart_def hex4_def z r)
  next
    case 2
    then have "n div 16 < 16" by simp
    with 2 show ?thesis
      by (simp add: toString_16_digit toString_16_step
          toUpperCase_Nil toUpper_digit_char padStart_def hex4_def z r)
  next
    case 3
    then have a: "16 \<le> n" "16 \<le> n div 16" "n div 256 < 16" by simp_all
    have b: "n div 16 div 16 = n div 256"
      by (simp add: div_mult2_eq)
    from a show ?thesis
      by (simp add: b toString_16_digit toString_16_step
          toUpperCase_Nil toUpper_digit_char padStart_def hex4_def z r)
  next
    case 4
    with assms have a: "16 \<le> n" "16 \<le> n div 16" "16 \<le> n div 256" "n div 4096 < 16"
      by simp_all
    have b: "n div 16 div 16 = n div 256" "n div 256 div 16 = n div 4096"
      by (simp_all add: div_mult2_eq)
    from a show ?thesis
      by (simp add: b toString_16_digit toString_16_step
          toUpperCase_Nil toUpper_digit_char padStart_def hex4_def z r)
  qed
qed

lemma calculateCRC16_hex4: "calculateCRC16 data = hex4 (unat (foldl crc_char 0xFFFF data))"
  by (simp add: calculateCRC16_def Let_def render_hex4 crc_register_bound)

lemma calculateCRC16_length: "length (calculateCRC16 data) = 4"
  by (simp add: calculateCRC16_hex4 hex4_def)

lemma calculateCRC16_chars: "list_all isUpperHex (calculateCRC16 data)"
  by (simp add: calculateCRC16_hex4 hex4_def isUpperHex_hex_digit)

text \<open>
  C10: for every input string, also one with code units above 255, \<open>calculateCRC16\<close>
  returns exactly four characters and each of them is an upper-case hexadecimal digit.
  The register is masked to 16 bits in every round of the inner loop, so its final
  value is below \<open>65536\<close> whatever was combined into the upper bits.
\<close>

theorem calculateCRC16_four_upper_hex:
  "length (calculateCRC16 data) = 4 \<and> list_all isUpperHex (calculateCRC16 data) \<and>
   unat (foldl crc_char 0xFFFF data) < 65536"
  by (simp add: calculateCRC16_hex4 hex4_def isUpperHex_hex_digit crc_register_bound)

subsection \<open>The 32-bit computation against the 16-bit register\<close>

lemma test_high_bit: "(x AND 0x8000 \<noteq> 0) = bit x 15" for x :: "32 word"
proof -
  have "(0x8000 :: 32 word) = push_bit 15 1" by simp
  then show ?thesis
    by (simp only: bit_iff_and_push_bit_not_eq_0)
qed

lemma ucast_mask16: "(ucast (x AND 0xFFFF :: 32 word) :: 16 word) = ucast x"
proof -
  have "(0xFFFF :: 32 word) = mask 16" by (simp add: mask_eq_exp_minus_1)
  then show ?thesis
    by (simp add: bit_eq_iff bit_simps)
qed

lemma ucast_shift: "(ucast (push_bit 1 x :: 32 word) :: 16 word) = push_bit 1 (ucast x)"
  by (rule bit_word_eqI) (simp only: bit_simps, auto)

lemma ucast_shift_xor:
  "(ucast (push_bit 1 x XOR 0x1021 :: 32 word) :: 16 word) = push_bit 1 (ucast x) XOR 0x1021"
  by (rule bit_word_eqI) (simp only: bit_simps bit_numeral_word_iff, auto)

lemma ucast_bit15: "bit (ucast x :: 16 word) 15 = bit x 15" for x :: "32 word"
  by (simp add: bit_simps)

lemma ucast_crc_round: "(ucast (crc_round x) :: 16 word) = spec_crc_round (ucast x)"
  unfolding crc_round_def spec_crc_round_def Let_def test_high_bit ucast_mask16 ucast_bit15
  by (simp only: ucast_shift_xor ucast_shift if_distrib [of ucast])

lemma ucast_xor_byte:
  "(ucast (x XOR push_bit 8 (ucast c) :: 32 word) :: 16 word) =
     ucast x XOR push_bit 8 (ucast (ucast c :: 8 word))" for c :: "16 word"
  by (rule bit_word_eqI) (simp only: bit_simps, auto)

lemma ucast_crc_char:
  "(ucast (crc_char x c) :: 16 word) = spec_crc_char (ucast x) (ucast c)"
  by (simp only: crc_char_def spec_crc_char_def funpow_8 ucast_crc_round ucast_xor_byte)

lemma ucast_crc_foldl:
  "(ucast (foldl crc_char x data) :: 16 word) = foldl spec_crc_char (ucast x) (map ucast data)"
  by (induction data arbitrary: x) (simp_all add: ucast_crc_char)

lemma unat_register:
  assumes "y \<le> 0xFFFF"
  shows "unat (y :: 32 word) = unat (ucast y :: 16 word)"
proof -
  from assms have "unat y \<le> unat (0xFFFF :: 32 word)"
    by (simp only: word_le_nat_alt)
  then have "unat y < 2 ^ 16" by simp
  then have "take_bit 16 (unat y) = unat y"
    by (simp only: take_bit_nat_eq_self)
  then show ?thesis
    by (simp add: unsigned_ucast_eq)
qed

lemma calculateCRC16_refines: "calculateCRC16 data = spec_checksum (map ucast data)"
proof -
  have "unat (foldl crc_char 0xFFFF data) =
      unat (ucast (foldl crc_char 0xFFFF data) :: 16 word)"
    by (rule unat_register) (rule crc_foldl_le, simp)
  also have "\<dots> = unat (foldl spec_crc_char 0xFFFF (map ucast data))"
    by (simp add: ucast_crc_foldl)
  finally show ?thesis
    by (simp add: calculateCRC16_hex4 spec_checksum_def)
qed

lemma byte_of_code_unit:
  assumes "c \<le> 255"
  shows "(ucast (ucast c :: 8 word) :: 16 word) = c"
proof -
  from assms have "unat c \<le> unat (255 :: 16 word)"
    by (simp only: word_le_nat_alt)
  then have "unat c < 2 ^ 8" by simp
  then have "take_bit 8 (unat c) = unat c"
    by (simp only: take_bit_nat_eq_self)
  then have "unat (ucast (ucast c :: 8 word) :: 16 word) = unat c"
    by (simp add: unsigned_ucast_eq unsigned_take_bit_eq)
  then show ?thesis
    by (simp only: word_unat_eq_iff)
qed

text \<open>
  C2: for every input string whose code units are all at most 255, the bytes of the
  string are its code units, and \<open>calculateCRC16\<close> returns the CRC-16/CCITT-FALSE
  checksum of these bytes as the specification words it: register \<open>0xFFFF\<close>, each
  byte combined into the high byte, eight shift rounds with polynomial \<open>0x1021\<close> on a
  16-bit register, four upper-case hexadecimal digits with leading zeros.
\<close>

theorem calculateCRC16_is_ccitt_false:
  assumes "\<forall>c \<in> set data. c \<le> 255"
  shows "map ucast (map ucast data :: 8 word list) = data \<and>
         calculateCRC16 data = spec_checksum (map ucast data)"
proof
  from assms show "map ucast (map ucast data :: 8 word list) = data"
    by (induction data) (simp_all add: byte_of_code_unit)
  show "calculateCRC16 data = spec_checksum (map ucast data)"
    by (rule calculateCRC16_refines)
qed

theorem calculateCRC16_is_ccitt_false_witness:
  "calculateCRC16 (lit ''123456789'') = spec_checksum (map ucast (lit ''123456789'')) \<and>
   spec_checksum (map ucast (lit ''123456789'')) = lit ''29B1''"
proof -
  have h: "\<forall>c \<in> set (lit ''123456789''). c \<le> 255"
    by (simp add: lit_def)
  have v: "spec_checksum (map ucast (lit ''123456789'')) = lit ''29B1''"
    by (simp add: spec_checksum_def spec_crc_char_def funpow_8 spec_crc_round_def lit_def
        hex4_def hex_digit_def)
  from h v calculateCRC16_is_ccitt_false [OF h] show ?thesis
    by simp
qed


section \<open>Properties of indexOf and slice\<close>

lemma occurs_at_Nil: "occurs_at [] pat k \<longleftrightarrow> pat = [] \<and> k = 0"
  by (auto simp: occurs_at_def)

lemma occurs_at_0: "occurs_at s pat 0 \<longleftrightarrow> take (length pat) s = pat"
proof
  assume "take (length pat) s = pat"
  then have "length (take (length pat) s) = length pat" by simp
  then have "length pat \<le> length s" by simp
  with \<open>take (length pat) s = pat\<close> show "occurs_at s pat 0"
    by (simp add: occurs_at_def)
qed (simp add: occurs_at_def)

lemma occurs_at_Suc: "occurs_at (c # s) pat (Suc k) \<longleftrightarrow> occurs_at s pat k"
  by (simp add: occurs_at_def)

lemma indexOf_from_absent:
  "(\<forall>j. \<not> occurs_at s pat j) \<Longrightarrow> indexOf_from pat s k = - 1"
proof (induction s arbitrary: k)
  case Nil
  then have "\<not> occurs_at [] pat 0" by blast
  then have "pat \<noteq> []" by (simp add: occurs_at_Nil)
  then show ?case by simp
next
  case (Cons c s)
  from Cons.prems have "\<not> occurs_at (c # s) pat 0" by blast
  then have a: "take (length pat) (c # s) \<noteq> pat"
    by (simp add: occurs_at_0)
  have "\<forall>j. \<not> occurs_at s pat j"
    using Cons.prems occurs_at_Suc by blast
  then have "indexOf_from pat s (k + 1) = - 1"
    by (rule Cons.IH)
  with a show ?case by simp
qed

lemma indexOf_from_first:
  "first_occurrence s pat j \<Longrightarrow> indexOf_from pat s k = k + int j"
proof (induction s arbitrary: k j)
  case Nil
  then show ?case by (simp add: first_occurrence_def occurs_at_Nil)
next
  case (Cons c s)
  show ?case
  proof (cases j)
    case 0
    with Cons.prems have "take (length pat) (c # s) = pat"
      by (simp add: first_occurrence_def occurs_at_0)
    with 0 show ?thesis by simp
  next
    case (Suc j')
    with Cons.prems have "\<not> occurs_at (c # s) pat 0"
      by (simp add: first_occurrence_def)
    then have a: "take (length pat) (c # s) \<noteq> pat"
      by (simp add: occurs_at_0)
    have "first_occurrence s pat j'"
      unfolding first_occurrence_def
    proof (intro conjI allI impI)
      from Cons.prems Suc show "occurs_at s pat j'"
        by (simp add: first_occurrence_def occurs_at_Suc)
      fix i assume "i < j'"
      then have "Suc i < j" using Suc by simp
      with Cons.prems have "\<not> occurs_at (c # s) pat (Suc i)"
        by (simp add: first_occurrence_def)
      then show "\<not> occurs_at s pat i"
        by (simp add: occurs_at_Suc)
    qed
    then have "indexOf_from pat s (k + 1) = k + 1 + int j'"
      by (rule Cons.IH)
    with a Suc show ?thesis by simp
  qed
qed

lemma indexOf_absent: "\<not> (\<exists>j. occurs_at s pat j) \<Longrightarrow> indexOf s pat = - 1"
  by (simp add: indexOf_def indexOf_from_absent)

lemma indexOf_first: "first_occurrence s pat j \<Longrightarrow> indexOf s pat = int j"
  by (simp add: indexOf_def indexOf_from_first)

lemma first_occurrence_exists:
  assumes "occurs_at s pat j"
  shows "\<exists>k. first_occurrence s pat k"
proof -
  define k where "k = (LEAST i. occurs_at s pat i)"
  have "occurs_at s pat k"
    unfolding k_def using assms by (rule LeastI)
  moreover have "\<not> occurs_at s pat i" if "i < k" for i
    using that unfolding k_def by (rule not_less_Least)
  ultimately show ?thesis
    by (auto simp: first_occurrence_def)
qed

lemma includes_str_iff: "includes_str s pat \<longleftrightarrow> (\<exists>k. occurs_at s pat k)"
proof (cases "\<exists>k. occurs_at s pat k")
  case True
  then obtain k where "first_occurrence s pat k"
    using first_occurrence_exists by blast
  then have "indexOf s pat = int k" by (rule indexOf_first)
  with True show ?thesis by (simp add: includes_str_def)
next
  case False
  then show ?thesis by (simp add: includes_str_def indexOf_absent)
qed

lemma slice_prefix: "0 \<le> n \<Longrightarrow> slice s 0 n = take (nat n) s"
  by (auto simp: slice_def Let_def min_def max_def)

lemma slice_nonneg:
  "0 \<le> a \<Longrightarrow> a \<le> b \<Longrightarrow> b \<le> int (length s) \<Longrightarrow> slice s a b = take (nat (b - a)) (drop (nat a) s)"
  by (auto simp: slice_def Let_def min_def max_def)


section \<open>Properties of validate\<close>

text \<open>
  C5: \<open>validate\<close> is a total function to booleans; the source has no statement that
  throws and the model has no error result. It returns false when \<open>6304\<close> does not
  occur in the payload, and false when fewer than 8 characters remain from the first
  occurrence. Otherwise it returns true exactly when the 4 characters after that
  header equal, code unit by code unit, the checksum computed over the payload up to
  and including the header.
\<close>

theorem validate_first_header:
  "(\<not> (\<exists>k. occurs_at qrString (lit ''6304'') k) \<longrightarrow> \<not> validate qrString) \<and>
   (\<forall>k. first_occurrence qrString (lit ''6304'') k \<longrightarrow>
      (if length qrString < k + 8 then \<not> validate qrString
       else validate qrString =
         (take 4 (drop (k + 4) qrString) = calculateCRC16 (take (k + 4) qrString))))"
proof (intro conjI allI impI)
  assume "\<not> (\<exists>k. occurs_at qrString (lit ''6304'') k)"
  then have "indexOf qrString (lit ''6304'') = - 1"
    by (rule indexOf_absent)
  then show "\<not> validate qrString"
    by (simp add: validate_def)
next
  fix k
  assume "first_occurrence qrString (lit ''6304'') k"
  then have i: "indexOf qrString (lit ''6304'') = int k"
    by (rule indexOf_first)
  show "if length qrString < k + 8 then \<not> validate qrString
       else validate qrString =
         (take 4 (drop (k + 4) qrString) = calculateCRC16 (take (k + 4) qrString))"
  proof (cases "length qrString < k + 8")
    case True
    with i show ?thesis by (simp add: validate_def)
  next
    case False
    then have a: "slice qrString 0 (int k + 4) = take (k + 4) qrString"
      by (simp add: slice_prefix nat_add_distrib)
    from False have b: "slice qrString (int k + 4) (int k + 8) = take 4 (drop (k + 4) qrString)"
      by (simp add: slice_nonneg nat_add_distrib)
    from False i a b show ?thesis
      by (simp add: validate_def Let_def)
  qed
qed

theorem validate_first_header_witness:
  "validate (lit ''5802ID630472C6'') \<and> \<not> validate (lit ''5802ID630401'')"
proof -
  have c: "calculateCRC16 (lit ''5802ID6304'') = lit ''72C6''"
    by (simp add: calculateCRC16_hex4 crc_char_def funpow_8 crc_round_def lit_def
        hex4_def hex_digit_def)
  have j: "j = 0 \<or> j = 1 \<or> j = 2 \<or> j = 3 \<or> j = 4 \<or> j = 5" if "j < 6" for j :: nat
    using that by arith
  have "\<not> occurs_at (lit ''5802ID630472C6'') (lit ''6304'') j" if "j < 6" for j
    using j [OF that] by (auto simp: occurs_at_def lit_def)
  then have f: "first_occurrence (lit ''5802ID630472C6'') (lit ''6304'') 6"
    by (simp add: first_occurrence_def occurs_at_def lit_def)
  have "\<not> occurs_at (lit ''5802ID630401'') (lit ''6304'') j" if "j < 6" for j
    using j [OF that] by (auto simp: occurs_at_def lit_def)
  then have g: "first_occurrence (lit ''5802ID630401'') (lit ''6304'') 6"
    by (simp add: first_occurrence_def occurs_at_def lit_def)
  from validate_first_header [of "lit ''5802ID630472C6''", THEN conjunct2, rule_format, OF f]
    validate_first_header [of "lit ''5802ID630401''", THEN conjunct2, rule_format, OF g]
  show ?thesis
    using c by (simp add: lit_def)
qed

section \<open>Properties of generate\<close>

text \<open>
  C6: \<open>generate\<close> throws exactly when the base payload does not contain \<open>6304\<close>, and
  then the error is the one whose message names the missing CRC tag; a call never
  ends in any other error. The other operations (\<open>generateTag\<close>, \<open>calculateCRC16\<close>,
  \<open>parseTLV\<close>, \<open>validate\<close>, \<open>extract\<close>) contain no \<open>throw\<close>, and their models have no
  error result.
\<close>

theorem generate_invalid_format:
  "(generate dataQris amountFixed dataInvoice dataDescription = Some (Inl e)) =
   (\<not> (\<exists>k. occurs_at dataQris (lit ''6304'') k) \<and>
    e = Error (lit ''Invalid QRIS base: CRC tag '' @ [0x22] @ lit ''6304'' @ [0x22]
                 @ lit '' not found''))"
proof (cases "includes_str dataQris (lit ''6304'')")
  case True
  then have "\<exists>k. occurs_at dataQris (lit ''6304'') k"
    by (simp add: includes_str_iff)
  moreover from True have "generate dataQris amountFixed dataInvoice dataDescription \<noteq> Some (Inl e)"
    by (cases "parseTLV (slice dataQris 0 (indexOf dataQris (lit ''6304''))) []")
      (simp_all add: generate_def Let_def)
  ultimately show ?thesis by simp
next
  case False
  then have "\<not> (\<exists>k. occurs_at dataQris (lit ''6304'') k)"
    by (simp add: includes_str_iff)
  with False show ?thesis
    by (auto simp: generate_def)
qed

theorem generate_invalid_format_witness:
  "generate (lit ''000201'') (lit ''10000.00'') [] [] =
     Some (Inl (Error (lit ''Invalid QRIS base: CRC tag '' @ [0x22] @ lit ''6304'' @ [0x22]
                 @ lit '' not found'')))"
proof -
  have "\<not> occurs_at (lit ''000201'') (lit ''6304'') k" for k
  proof -
    have "k = 0 \<or> k = 1 \<or> k = 2 \<or> 3 \<le> k" by arith
    then show ?thesis
      by (auto simp: occurs_at_def lit_def)
  qed
  then show ?thesis
    by (simp add: generate_invalid_format [of "lit ''000201''" "lit ''10000.00''" "[]" "[]"])
qed

section \<open>Properties of generateTag\<close>

lemma digit10_cases:
  assumes "d < (10 :: nat)"
  shows "d = 0 \<or> d = 1 \<or> d = 2 \<or> d = 3 \<or> d = 4 \<or> d = 5 \<or> d = 6 \<or> d = 7 \<or> d = 8 \<or> d = 9"
  using assms by arith

lemma decimal_digit_char:
  assumes "d < 10"
  shows "isDigit (digit_char d) \<and> unat (digit_char d) - 48 = d"
  using digit10_cases [OF assms]
  by (elim disjE) (simp_all add: isDigit_def digit_char_def)

lemma toString_10_digit: "n < 10 \<Longrightarrow> toString_radix 10 n = [digit_char n]"
  by (simp add: toString_radix.simps [of 10 n])

lemma toString_10_step:
  "10 \<le> n \<Longrightarrow> toString_radix 10 n = toString_radix 10 (n div 10) @ [digit_char (n mod 10)]"
  by (simp add: toString_radix.simps [of 10 n])

text \<open>
  C7, as amended: for every tag id and every value of fewer than 100 code units,
  \<open>generateTag\<close> emits the id, then two decimal digits whose value is the number of
  code units of the value, then the value.
\<close>

theorem generateTag_length_field:
  assumes "length val < 100"
  shows "generateTag ident val =
           ident @ [digit_char (length val div 10), digit_char (length val mod 10)] @ val \<and>
         list_all isDigit [digit_char (length val div 10), digit_char (length val mod 10)] \<and>
         decimal_value [digit_char (length val div 10), digit_char (length val mod 10)] =
           length val"
proof -
  define n where "n = length val"
  with assms have n: "n < 100" by simp
  then have d: "n div 10 < 10" "n mod 10 < 10" by simp_all
  have z: "digit_char 0 = 48" by (simp add: digit_char_def)
  have "padStart 2 48 (toString_radix 10 n) = [digit_char (n div 10), digit_char (n mod 10)]"
  proof (cases "n < 10")
    case True
    then show ?thesis
      by (simp add: toString_10_digit padStart_def z)
  next
    case False
    with d show ?thesis
      by (simp add: toString_10_digit toString_10_step padStart_def)
  qed
  then have "generateTag ident val = ident @ [digit_char (n div 10), digit_char (n mod 10)] @ val"
    by (simp add: generateTag_def Let_def n_def)
  moreover have "list_all isDigit [digit_char (n div 10), digit_char (n mod 10)]"
    using d by (simp add: decimal_digit_char)
  moreover have "decimal_value [digit_char (n div 10), digit_char (n mod 10)] = n"
    using d by (simp add: decimal_value_def decimal_digit_char)
  ultimately show ?thesis
    by (simp add: n_def)
qed

theorem generateTag_length_field_witness:
  "generateTag (lit ''54'') (lit ''10000.00'') = lit ''540810000.00''"
  using generateTag_length_field [of "lit ''10000.00''" "lit ''54''"]
  by (simp add: lit_def digit_char_def)

text \<open>
  C7 as stated fails for a value of 100 code units: the length is rendered as \<open>100\<close>,
  so the two characters after the id read \<open>10\<close>.
\<close>

theorem generateTag_long_value:
  "generateTag (lit ''01'') (replicate 100 65) = lit ''01'' @ lit ''100'' @ replicate 100 65 \<and>
   take 2 (drop 2 (generateTag (lit ''01'') (replicate 100 65))) = lit ''10'' \<and>
   decimal_value (lit ''10'') \<noteq> length (replicate 100 (65 :: 16 word))"
  by (simp add: generateTag_def Let_def toString_radix.simps padStart_def lit_def digit_char_def
      decimal_value_def)


section \<open>Evaluation on concrete payloads\<close>

lemmas eval_parse = parseTLV_def parseTLV_loop.simps slice_def parseInt_def isWhiteSpace_def
  isDigit_def decimal_value_def lit_def Let_def

lemmas eval_crc = calculateCRC16_hex4 crc_char_def funpow_8 crc_round_def hex4_def hex_digit_def
lemmas eval_rebuild = rebuild.simps Object_keys_def Object_entries_def isArrayIndex_def
  generateTag_def toString_radix.simps padStart_def digit_char_def
lemmas eval_generate = generate_def includes_str_def indexOf_def

section \<open>Properties of parseTLV\<close>

text \<open>
  With the payload \<open>00-4\<close> the length field reads \<open>-4\<close>: the entry is stored and the
  scan position stays at 0, so no run of the loop from position 0 returns.
\<close>

lemma negative_length_loops:
  assumes "parseTLV_loop data recurseTags i result = Some y"
  shows "\<not> (data = lit ''00-4'' \<and> i = 0)"
  using assms
proof (rule parseTLV_loop.raw_induct [rotated 1,
      where P = "\<lambda>d t i r y. \<not> (d = lit ''00-4'' \<and> i = 0)"], goal_cases)
  case (1 loop d t i r y)
  show ?case
  proof
    assume a: "d = lit ''00-4'' \<and> i = 0"
    then have l: "int (length d) = 4" "parseInt (slice d (i + 2) (i + 4)) = Some (- 4)"
      by (simp_all add: slice_def parseInt_def isWhiteSpace_def isDigit_def decimal_value_def
          lit_def Let_def)
    from 1(2) a l have "\<exists>r'. loop d t 0 r' = Some y"
      by (auto split: if_splits simp: bind_eq_Some_conv)
    then obtain r' where "loop d t 0 r' = Some y" ..
    then have "\<not> (d = lit ''00-4'' \<and> (0::int) = 0)"
      by (rule 1(1))
    with a show False by simp
  qed
qed

lemma parseTLV_negative_length: "parseTLV (lit ''00-4'') recurseTags = None"
proof (cases "parseTLV (lit ''00-4'') recurseTags")
  case (Some y)
  then have "\<not> (lit ''00-4'' = lit ''00-4'' \<and> (0::int) = 0)"
    unfolding parseTLV_def by (rule negative_length_loops)
  then show ?thesis by simp
qed simp

lemma parseTLV_loop_distinct:
  assumes "parseTLV_loop data recurseTags i result = Some y"
  shows "distinct (map fst result) \<longrightarrow> distinct (map fst y)"
  using assms
proof (rule parseTLV_loop.raw_induct [rotated 1,
      where P = "\<lambda>d t i r y. distinct (map fst r) \<longrightarrow> distinct (map fst y)"], goal_cases)
  case (1 loop d t i r y)
  then show ?case
    by (auto split: if_splits option.splits simp: bind_eq_Some_conv distinct_update)
qed

lemma parseTLV_distinct: "parseTLV data recurseTags = Some y \<Longrightarrow> distinct (map fst y)"
  unfolding parseTLV_def using parseTLV_loop_distinct [of data recurseTags 0 "[]" y] by simp

text \<open>
  C3, at the payloads \<open>AB-5xyzw\<close> and \<open>AB1xZ\<close>: the length fields \<open>-5\<close> and \<open>1x\<close>
  are not non-negative decimal integers, yet the scan does not stop there. For \<open>-5\<close>
  the entry stored under \<open>AB\<close> is \<open>xyz\<close>, three characters for a declared length of
  \<open>-5\<close>; for \<open>1x\<close> the length is read as 1 and \<open>Z\<close> is stored.
\<close>

theorem parseTLV_accepts_bad_length:
  "parseTLV (lit ''AB-5xyzw'') [] = Some [(lit ''AB'', JStr (lit ''xyz''))] \<and>
   parseTLV (lit ''AB1xZ'') [] = Some [(lit ''AB'', JStr (lit ''Z''))]"
  by (simp add: eval_parse)

text \<open>
  C4, at the payload \<open>00-4\<close>: \<open>parseTLV\<close> never returns, with or without a container
  tag, and neither does \<open>generate\<close> on the base \<open>00-46304\<close>.
\<close>

theorem parseTLV_never_returns:
  "parseTLV (lit ''00-4'') [] = None \<and> parseTLV (lit ''00-4'') [lit ''62''] = None \<and>
   generate (lit ''00-46304'') (lit ''1.00'') [] [] = None"
proof -
  have "slice (lit ''00-46304'') 0 (indexOf (lit ''00-46304'') (lit ''6304'')) = lit ''00-4''"
    by (simp add: indexOf_def slice_def lit_def)
  moreover have "includes_str (lit ''00-46304'') (lit ''6304'')"
    by (simp add: includes_str_def indexOf_def lit_def)
  ultimately show ?thesis
    by (simp add: generate_def parseTLV_negative_length)
qed

theorem parseTLV_never_returns_witness:
  "generate (lit ''00-46304'') (lit ''1.00'') [] [] = None"
  using parseTLV_never_returns by simp

text \<open>
  C9, at the payload \<open>00-4\<close>: \<open>extract\<close> never returns, so it yields no labelled
  structure for this payload.
\<close>

theorem extract_never_returns: "extract_qris (lit ''00-4'') = None"
  by (simp add: extract_qris_def parseTLV_negative_length)

section \<open>Properties of rebuild\<close>

lemma set_Object_entries: "set (Object_entries obj) = set obj"
  by (auto simp: Object_entries_def)

lemma set_Object_keys: "set (Object_keys obj) = fst ` set obj"
  by (simp add: Object_keys_def set_Object_entries)

lemma distinct_Object_keys:
  assumes "distinct (map fst obj)"
  shows "distinct (Object_keys obj)"
proof -
  from assms have d: "distinct obj" and i: "inj_on fst (set obj)"
    by (simp_all add: distinct_map)
  from d have "distinct (Object_entries obj)"
    by (auto simp: Object_entries_def)
  with i show ?thesis
    by (simp add: Object_keys_def distinct_map set_Object_entries)
qed

lemma rebuild_entries:
  "rebuild obj =
     concat (map (\<lambda>ident. generateTag ident (tag_value obj ident)) (sort (Object_keys obj)))"
proof -
  have "map (\<lambda>ident.
        case map_of obj ident of
          Some (JObj val) \<Rightarrow> generateTag ident (rebuild val)
        | Some (JStr val) \<Rightarrow> generateTag ident val
        | None \<Rightarrow> []) (sort (Object_keys obj)) =
      map (\<lambda>ident. generateTag ident (tag_value obj ident)) (sort (Object_keys obj))"
  proof (rule map_cong [OF refl])
    fix ident
    assume "ident \<in> set (sort (Object_keys obj))"
    then have "ident \<in> fst ` set obj"
      by (simp add: set_Object_keys)
    then have "map_of obj ident \<noteq> None"
      by (simp add: map_of_eq_None_iff)
    then show "(case map_of obj ident of
          Some (JObj val) \<Rightarrow> generateTag ident (rebuild val)
        | Some (JStr val) \<Rightarrow> generateTag ident val
        | None \<Rightarrow> []) = generateTag ident (tag_value obj ident)"
      by (auto simp: tag_value_def split: option.splits jsval.splits)
  qed
  then show ?thesis
    by (subst rebuild.simps) (simp only:)
qed

text \<open>
  C8: for every object whose names are distinct (as the names of an object are),
  \<open>rebuild\<close> is the concatenation of one tag per name, the names taken in strictly
  ascending lexicographic order; and whatever \<open>generate\<close> returns is such a
  serialisation of an object with distinct names, followed by the CRC header \<open>6304\<close>
  and the checksum.
\<close>

theorem rebuild_ascending:
  "(distinct (map fst obj) \<longrightarrow>
      (\<exists>ids. sorted_wrt (<) ids \<and> set ids = fst ` set obj \<and>
         rebuild obj = concat (map (\<lambda>ident. generateTag ident (tag_value obj ident)) ids))) \<and>
   (generate dataQris amountFixed dataInvoice dataDescription = Some (Inr out) \<longrightarrow>
      (\<exists>tlv. distinct (map fst tlv) \<and>
         out = rebuild tlv @ lit ''6304'' @ calculateCRC16 (rebuild tlv @ lit ''6304'')))"
proof (intro conjI impI)
  assume d: "distinct (map fst obj)"
  let ?ids = "sort (Object_keys obj)"
  from d have "sorted_wrt (<) ?ids"
    by (simp add: strict_sorted_iff distinct_Object_keys)
  moreover have "set ?ids = fst ` set obj"
    by (simp add: set_Object_keys)
  ultimately show "\<exists>ids. sorted_wrt (<) ids \<and> set ids = fst ` set obj \<and>
         rebuild obj = concat (map (\<lambda>ident. generateTag ident (tag_value obj ident)) ids)"
    using rebuild_entries [of obj] by blast
next
  assume g: "generate dataQris amountFixed dataInvoice dataDescription = Some (Inr out)"
  let ?base = "slice dataQris 0 (indexOf dataQris (lit ''6304''))"
  from g obtain tlv0 where p: "parseTLV ?base [] = Some tlv0"
    by (cases "parseTLV ?base []") (auto simp: generate_def split: if_splits)
  then have d0: "distinct (map fst tlv0)"
    by (rule parseTLV_distinct)
  define tlv1 where "tlv1 = AList.update (lit ''54'') (JStr amountFixed) tlv0"
  define addData where "addData =
     (let addData = [];
          addData = (if dataInvoice \<noteq> []
                     then AList.update (lit ''01'') (JStr dataInvoice) addData
                     else addData);
          addData = (if dataDescription \<noteq> []
                     then AList.update (lit ''07'') (JStr dataDescription) addData
                     else addData)
      in addData)"
  define tlv2 where "tlv2 =
     (if dataInvoice \<noteq> [] \<or> dataDescription \<noteq> []
      then AList.update (lit ''62'') (JObj addData) tlv1 else tlv1)"
  from d0 have "distinct (map fst tlv2)"
    by (simp add: tlv2_def tlv1_def distinct_update)
  moreover from g p have
    "out = rebuild tlv2 @ lit ''6304'' @ calculateCRC16 (rebuild tlv2 @ lit ''6304'')"
    by (auto simp: generate_def tlv2_def tlv1_def addData_def Let_def split: if_splits)
  ultimately show "\<exists>tlv. distinct (map fst tlv) \<and>
         out = rebuild tlv @ lit ''6304'' @ calculateCRC16 (rebuild tlv @ lit ''6304'')"
    by blast
qed

theorem rebuild_ascending_witness:
  "rebuild [(lit ''54'', JStr (lit ''1.00'')), (lit ''00'', JStr (lit ''01''))] =
     lit ''00020154041.00'' \<and>
   (\<exists>ids. sorted_wrt (<) ids \<and> set ids = {lit ''54'', lit ''00''} \<and>
      lit ''00020154041.00'' =
        concat (map (\<lambda>ident. generateTag ident
          (tag_value [(lit ''54'', JStr (lit ''1.00'')), (lit ''00'', JStr (lit ''01''))] ident))
          ids)) \<and>
   (\<exists>tlv. distinct (map fst tlv) \<and>
      lit ''00020154041.00630418A5'' =
        rebuild tlv @ lit ''6304'' @ calculateCRC16 (rebuild tlv @ lit ''6304''))"
proof -
  let ?obj = "[(lit ''54'', JStr (lit ''1.00'')), (lit ''00'', JStr (lit ''01''))]"
  let ?tlv = "[(lit ''00'', JStr (lit ''01'')), (lit ''54'', JStr (lit ''1.00''))]"
  have d: "distinct (map fst ?obj)"
    by (simp add: lit_def)
  have r: "rebuild ?obj = lit ''00020154041.00''"
    by (simp add: eval_rebuild lit_def)
  have r': "rebuild ?tlv @ lit ''6304'' = lit ''00020154041.006304''"
    by (simp add: eval_rebuild lit_def)
  have c: "calculateCRC16 (lit ''00020154041.006304'') = lit ''18A5''"
    by (simp add: eval_crc lit_def)
  have "generate (lit ''0002016304'') (lit ''1.00'') [] [] =
      Some (Inr (rebuild ?tlv @ lit ''6304'' @ calculateCRC16 (rebuild ?tlv @ lit ''6304'')))"
    by (simp add: eval_generate eval_parse)
  then have "generate (lit ''0002016304'') (lit ''1.00'') [] [] =
      Some (Inr ((rebuild ?tlv @ lit ''6304'') @ calculateCRC16 (rebuild ?tlv @ lit ''6304'')))"
    by (simp only: append_assoc)
  then have "generate (lit ''0002016304'') (lit ''1.00'') [] [] =
      Some (Inr (lit ''00020154041.006304'' @ lit ''18A5''))"
    by (simp only: r' c)
  moreover have "lit ''00020154041.006304'' @ lit ''18A5'' = lit ''00020154041.00630418A5''"
    by (simp add: lit_def)
  ultimately have g: "generate (lit ''0002016304'') (lit ''1.00'') [] [] =
      Some (Inr (lit ''00020154041.00630418A5''))"
    by (simp only:)
  have s: "fst ` set ?obj = {lit ''54'', lit ''00''}"
    by simp
  from rebuild_ascending [where obj = ?obj, THEN conjunct1, rule_format, OF d]
    rebuild_ascending [where dataQris = "lit ''0002016304''" and amountFixed = "lit ''1.00''"
      and dataInvoice = "[]" and dataDescription = "[]"
      and out = "lit ''00020154041.00630418A5''", THEN conjunct2, rule_format, OF g]
  show ?thesis
    unfolding r s by (intro conjI) (rule refl)
qed

section \<open>Properties of extract\<close>

lemma map_of_relabelled:
  assumes "inj_on f (insert key (fst ` set entries))" and "distinct (map fst entries)"
  shows "map_of (foldl (\<lambda>acc (k, v). AList.update (f k) (g v) acc) init entries) (f key) =
     (case map_of entries key of Some v \<Rightarrow> Some (g v) | None \<Rightarrow> map_of init (f key))"
  using assms
proof (induction entries arbitrary: init)
  case Nil
  then show ?case by simp
next
  case (Cons e entries)
  obtain k v where e: "e = (k, v)" by (cases e)
  from Cons.prems have i: "inj_on f (insert key (fst ` set entries))"
    by (auto intro: inj_on_subset)
  from Cons.prems have d: "distinct (map fst entries)" by simp
  have ih: "map_of (foldl (\<lambda>acc (k, v). AList.update (f k) (g v) acc)
        (AList.update (f k) (g v) init) entries) (f key) =
     (case map_of entries key of Some v \<Rightarrow> Some (g v)
      | None \<Rightarrow> map_of (AList.update (f k) (g v) init) (f key))"
    by (rule Cons.IH [OF i d])
  show ?case
  proof (cases "k = key")
    case True
    with Cons.prems e have "map_of entries key = None"
      by (auto simp: map_of_eq_None_iff)
    with True e ih show ?thesis by (simp add: update_conv')
  next
    case False
    with Cons.prems e have "f k \<noteq> f key"
      by (auto simp: inj_on_def)
    with False e ih show ?thesis by (simp add: update_conv' split: option.splits)
  qed
qed

lemma names_relabelled:
  "fst ` set (foldl (\<lambda>acc (k, v). AList.update (f k) (g v) acc) init entries) =
     fst ` set init \<union> f ` fst ` set entries"
proof (induction entries arbitrary: init)
  case Nil
  then show ?case by simp
next
  case (Cons e entries)
  obtain k v where e: "e = (k, v)" by (cases e)
  have "fst ` set (AList.update (f k) (g v) init) = insert (f k) (fst ` set init)"
    using dom_update [of "f k" "g v" init] by (simp add: dom_map_of_conv_image_fst)
  with Cons.IH [of "AList.update (f k) (g v) init"] e show ?case
    by auto
qed

text \<open>
  Every key has its own label: the labels of a table are distinct and none of them
  starts with \<open>Tag \<close>.
\<close>

lemma tagMap_labels_distinct: "distinct (map snd tagMap)"
  by (simp add: tagMap_def lit_def)

lemma tagMap_labels_no_fallback: "list_all (\<lambda>p. take 4 (snd p) \<noteq> lit ''Tag '') tagMap"
  by (simp add: tagMap_def lit_def)

lemma subTagMap_labels_distinct: "distinct (map snd subTagMap)"
  by (simp add: subTagMap_def lit_def)

lemma subTagMap_labels_no_fallback: "list_all (\<lambda>p. take 4 (snd p) \<noteq> lit ''Tag '') subTagMap"
  by (simp add: subTagMap_def lit_def)

lemma label_of_inj:
  assumes "distinct (map snd table)" and "list_all (\<lambda>p. take 4 (snd p) \<noteq> lit ''Tag '') table"
  shows "inj (label_of table)"
proof (rule injI)
  fix k1 k2
  assume eq: "label_of table k1 = label_of table k2"
  have t: "take 4 (lit ''Tag '' @ k) = lit ''Tag ''" for k
    by (simp add: lit_def)
  have nf: "n \<noteq> lit ''Tag '' @ k" if "map_of table k' = Some n" for n k k'
  proof
    assume "n = lit ''Tag '' @ k"
    moreover from that have "(k', n) \<in> set table" by (rule map_of_SomeD)
    with assms(2) have "take 4 n \<noteq> lit ''Tag ''"
      by (auto simp: list_all_iff)
    ultimately show False using t by simp
  qed
  show "k1 = k2"
  proof (cases "map_of table k1")
    case None
    note n1 = this
    show ?thesis
    proof (cases "map_of table k2")
      case None
      with n1 eq show ?thesis by (simp add: label_of_def)
    next
      case (Some n2)
      with n1 eq nf [OF Some, of k1] show ?thesis by (simp add: label_of_def)
    qed
  next
    case (Some n1)
    note s1 = this
    show ?thesis
    proof (cases "map_of table k2")
      case None
      with s1 eq nf [OF s1, of k2] show ?thesis by (simp add: label_of_def)
    next
      case (Some n2)
      with s1 eq have "n1 = n2" by (simp add: label_of_def)
      moreover from s1 have "(k1, n1) \<in> set table" by (rule map_of_SomeD)
      moreover from Some have "(k2, n2) \<in> set table" by (rule map_of_SomeD)
      moreover from assms(1) have "inj_on snd (set table)"
        by (simp add: distinct_map)
      ultimately have "(k1, n1) = (k2, n2)"
        by (intro inj_onD [of snd "set table"]) simp_all
      then show ?thesis by simp
    qed
  qed
qed

lemma map_of_Object_entries:
  assumes "distinct (map fst obj)"
  shows "map_of (Object_entries obj) = map_of obj"
proof -
  from assms have "distinct (map fst (Object_entries obj))"
    using distinct_Object_keys [of obj] by (simp add: Object_keys_def)
  with assms show ?thesis
    by (simp add: map_of_inject_set set_Object_entries)
qed

lemma extract_nested_labels:
  assumes "distinct (map fst obj)"
  shows "map_of (extract_nested obj) (label_of subTagMap key) = map_of obj key \<and>
         fst ` set (extract_nested obj) = label_of subTagMap ` fst ` set obj"
proof -
  have inj: "inj (label_of subTagMap)"
    by (rule label_of_inj [OF subTagMap_labels_distinct subTagMap_labels_no_fallback])
  have d: "distinct (map fst (Object_entries obj))"
    using distinct_Object_keys [OF assms] by (simp add: Object_keys_def)
  have "map_of (extract_nested obj) (label_of subTagMap key) =
      (case map_of (Object_entries obj) key of Some v \<Rightarrow> Some v
       | None \<Rightarrow> map_of [] (label_of subTagMap key))"
    unfolding extract_nested_def
    by (rule map_of_relabelled [where g = "\<lambda>v. v"]) (rule inj_on_subset [OF inj], simp, rule d)
  then have "map_of (extract_nested obj) (label_of subTagMap key) = map_of obj key"
    by (simp add: map_of_Object_entries [OF assms] split: option.splits)
  moreover have "fst ` set (extract_nested obj) = label_of subTagMap ` fst ` set obj"
    unfolding extract_nested_def
    by (simp add: names_relabelled [where g = "\<lambda>v. v"] set_Object_entries)
  ultimately show ?thesis ..
qed

text \<open>
  Whenever \<open>parseTLV\<close> returns for the payload, \<open>extract\<close> returns: the result has no
  entry for tag 63, every other top-level entry appears under its label, a nested
  object with its entries under their labels, and there are no other names.
\<close>

lemma extract_labels:
  assumes "parseTLV qrString [lit ''62''] = Some raw"
  shows "\<exists>result. extract_qris qrString = Some result \<and>
     (\<forall>key. map_of result (label_of tagMap key) =
        (if key = lit ''63'' then None else map_option relabel (map_of raw key))) \<and>
     fst ` set result = label_of tagMap ` (fst ` set raw - {lit ''63''})"
proof -
  define raw' where "raw' = AList.delete (lit ''63'') raw"
  define result where "result =
     foldl (\<lambda>acc (k, v). AList.update (label_of tagMap k) (relabel v) acc) [] (Object_entries raw')"
  have step: "(\<lambda>result (key, val).
               let label = label_of tagMap key in
               case val of
                 JObj obj \<Rightarrow> AList.update label (JObj (extract_nested obj)) result
               | JStr _ \<Rightarrow> AList.update label val result) =
      (\<lambda>acc (k, v). AList.update (label_of tagMap k) (relabel v) acc)"
    by (auto simp: fun_eq_iff Let_def split: jsval.splits)
  have e: "extract_qris qrString = Some result"
    by (simp add: extract_qris_def assms result_def raw'_def step)
  have inj: "inj (label_of tagMap)"
    by (rule label_of_inj [OF tagMap_labels_distinct tagMap_labels_no_fallback])
  from assms have "distinct (map fst raw)"
    by (rule parseTLV_distinct)
  then have d': "distinct (map fst raw')"
    by (simp add: raw'_def distinct_delete)
  then have d: "distinct (map fst (Object_entries raw'))"
    using distinct_Object_keys [of raw'] by (simp add: Object_keys_def)
  have m: "map_of result (label_of tagMap key) =
      (if key = lit ''63'' then None else map_option relabel (map_of raw key))" for key
  proof -
    have "map_of result (label_of tagMap key) =
        (case map_of (Object_entries raw') key of Some v \<Rightarrow> Some (relabel v)
         | None \<Rightarrow> map_of [] (label_of tagMap key))"
      unfolding result_def
      by (rule map_of_relabelled) (rule inj_on_subset [OF inj], simp, rule d)
    also have "map_of (Object_entries raw') key = map_of raw' key"
      by (simp add: map_of_Object_entries [OF d'])
    also have "map_of raw' key = (if key = lit ''63'' then None else map_of raw key)"
      by (simp add: raw'_def delete_conv')
    finally show ?thesis
      by (simp split: option.splits)
  qed
  have "fst ` set result = label_of tagMap ` fst ` set raw'"
    unfolding result_def
    by (simp add: names_relabelled set_Object_entries)
  moreover have "fst ` set raw' = fst ` set raw - {lit ''63''}"
  proof -
    have "fst ` set raw' = set (map fst raw')" by simp
    also have "\<dots> = set (removeAll (lit ''63'') (map fst raw))"
      by (simp only: raw'_def delete_keys)
    finally show ?thesis by simp
  qed
  ultimately have n: "fst ` set result = label_of tagMap ` (fst ` set raw - {lit ''63''})"
    by simp
  from e m n show ?thesis by blast
qed

section \<open>validate on a generated payload\<close>

text \<open>
  When the CRC header that \<open>generate\<close> appends is the first occurrence of \<open>6304\<close> in
  the generated payload, \<open>validate\<close> accepts it.
\<close>

lemma validate_header_first:
  assumes "first_occurrence (payload @ lit ''6304'' @ crc) (lit ''6304'') (length payload)"
    and "crc = calculateCRC16 (payload @ lit ''6304'')"
  shows "validate (payload @ lit ''6304'' @ crc)"
proof -
  let ?out = "payload @ lit ''6304'' @ crc"
  have l: "length (lit ''6304'') = 4" "length crc = 4"
    by (simp_all add: lit_def assms(2) calculateCRC16_length)
  from assms(1) have i: "indexOf ?out (lit ''6304'') = int (length payload)"
    by (rule indexOf_first)
  have a: "slice ?out 0 (int (length payload) + 4) = payload @ lit ''6304''"
    using l by (simp add: slice_prefix nat_add_distrib)
  have b: "slice ?out (int (length payload) + 4) (int (length payload) + 8) = crc"
    using l by (simp add: slice_nonneg nat_add_distrib)
  from i a b l show ?thesis
    by (simp add: validate_def Let_def assms(2))
qed

text \<open>
  C1, at the base payload of the test suite and the amount 6304: \<open>generate\<close> returns a
  payload whose amount tag \<open>54076304.00\<close> contains \<open>6304\<close>; \<open>validate\<close> takes that
  first occurrence, at position 76, for the CRC header, compares the characters \<open>.006\<close>
  that follow it with a checksum and returns false.
\<close>

theorem generate_amount_6304_rejected:
  "generate staticBase (toFixed2 6304) [] [] = Some (Inr generated6304) \<and>
   indexOf generated6304 (lit ''6304'') = 76 \<and>
   slice generated6304 80 84 = lit ''.006'' \<and>
   \<not> validate generated6304"
proof -
  let ?tlv = "[(lit ''00'', JStr (lit ''01'')), (lit ''01'', JStr (lit ''11'')),
     (lit ''26'', JStr (lit ''0012ID.GPNQR01189360091123456789020215ID2023254123939030'')),
     (lit ''54'', JStr (lit ''6304.00''))]"
  have a: "toFixed2 6304 = lit ''6304.00''"
    by (simp add: toFixed2_def toString_radix.simps digit_char_def lit_def)
  have g: "generate staticBase (lit ''6304.00'') [] [] =
      Some (Inr (rebuild ?tlv @ lit ''6304'' @ calculateCRC16 (rebuild ?tlv @ lit ''6304'')))"
    by (simp add: eval_generate eval_parse staticBase_def)
  have r: "rebuild ?tlv @ lit ''6304'' =
      lit ''00020101021126560012ID.GPNQR01189360091123456789020215ID202325412393903054076304.006304''"
    by (simp add: eval_rebuild lit_def)
  have c: "calculateCRC16 (lit ''00020101021126560012ID.GPNQR01189360091123456789020215ID202325412393903054076304.006304'') = lit ''5242''"
    by (simp add: eval_crc lit_def)
  have "generate staticBase (toFixed2 6304) [] [] =
      Some (Inr ((rebuild ?tlv @ lit ''6304'') @ calculateCRC16 (rebuild ?tlv @ lit ''6304'')))"
    using g by (simp only: a append_assoc)
  then have "generate staticBase (toFixed2 6304) [] [] =
      Some (Inr (lit ''00020101021126560012ID.GPNQR01189360091123456789020215ID202325412393903054076304.006304'' @ lit ''5242''))"
    by (simp only: r c)
  moreover have "lit ''00020101021126560012ID.GPNQR01189360091123456789020215ID202325412393903054076304.006304'' @ lit ''5242'' = generated6304"
    by (simp add: generated6304_def lit_def)
  ultimately have 1: "generate staticBase (toFixed2 6304) [] [] = Some (Inr generated6304)"
    by (simp only:)
  have i: "indexOf generated6304 (lit ''6304'') = 76"
    by (simp add: indexOf_def generated6304_def lit_def)
  have l: "length generated6304 = 91"
    by (simp add: generated6304_def lit_def)
  have s1: "slice generated6304 0 80 =
      lit ''00020101021126560012ID.GPNQR01189360091123456789020215ID202325412393903054076304''"
    by (simp add: slice_def generated6304_def lit_def)
  have s2: "slice generated6304 80 84 = lit ''.006''"
    by (simp add: slice_def generated6304_def lit_def)
  have c2: "calculateCRC16 (lit ''00020101021126560012ID.GPNQR01189360091123456789020215ID202325412393903054076304'') = lit ''93E4''"
    by (simp add: eval_crc lit_def)
  have n: "lit ''.006'' \<noteq> lit ''93E4''"
    by (simp add: lit_def)
  have v: "\<not> validate generated6304"
    by (simp add: validate_def i l s1 s2 c2 n)
  from 1 i s2 v show ?thesis by simp
qed

theorem generate_amount_6304_rejected_witness: "validate generated6304 = False"
  using generate_amount_6304_rejected by simp

end
